theory Spec2Isabelle
  imports Main
begin

section \<open>Data model\<close>

text \<open>
  The table \<open>UserData\<close> (one row per subscription). The primary key column \<open>id\<close> is
  called \<open>id_pk\<close> here, since \<open>id\<close> is the identity function of HOL. Python integers are
  \<open>int\<close>; \<open>teacher_name\<close> is a nullable column; \<open>last_accessed\<close> is a timestamp, kept
  as a number of seconds.
\<close>

record UserData =
  id_pk :: int
  teacher_id :: string
  teacher_name :: "string option"
  pushbullet_token :: string
  last_available_count :: int
  user_id :: string
  last_accessed :: int

text \<open>
  An exception value stands for an instance of Python's class \<open>Exception\<close>, with its
  message. The two handlers of the polling code that catch \<open>Exception\<close> catch every
  such value.
\<close>

datatype exn = Exception string

text \<open>
  What \<open>requests.get\<close> gives back. The library raises subclasses of
  \<open>RequestException\<close>; otherwise it returns a response, of which the code reads the
  status code, the final URL (after redirects) and the content. The content is kept as
  what \<open>BeautifulSoup\<close> makes of it: the stripped text of its first \<open>h1\<close> tag, if it has
  one, and the list of its text nodes.
\<close>

datatype soup = Soup (find_h1_text: "string option") (strings: "string list")

record response =
  status_code :: int
  url :: string
  content :: soup

datatype http_outcome = RequestException string | Response response

section \<open>Constants of the source\<close>

definition landing_page :: string where
  "landing_page = ''https://eikaiwa.dmm.com/''"

definition load_url :: "string \<Rightarrow> string" where
  "load_url tid = ''https://eikaiwa.dmm.com/teacher/index/'' @ tid @ ''/''"

text \<open>The text node that marks a bookable slot, as its UTF-8 bytes.\<close>

definition yoyaku_ka :: string where
  "yoyaku_ka = map char_of
     [0xE4, 0xBA, 0x88, 0xE7, 0xB4, 0x84, 0xE5, 0x8F, 0xAF :: nat]"

text \<open>The suffix of a notification's title (a space and eight characters), as UTF-8 bytes.\<close>

definition title_suffix :: string where
  "title_suffix = map char_of
     [0x20, 0xE3, 0x83, 0xAC, 0xE3, 0x83, 0x83, 0xE3, 0x82, 0xB9, 0xE3, 0x83, 0xB3,
      0xE9, 0x96, 0x8B, 0xE8, 0xAC, 0x9B, 0xE9, 0x80, 0x9A, 0xE7, 0x9F, 0xA5 :: nat]"

text \<open>How an f-string renders an optional string: \<open>None\<close> prints as the word None.\<close>

definition str_of :: "string option \<Rightarrow> string" where
  "str_of x = (case x of None \<Rightarrow> ''None'' | Some s \<Rightarrow> s)"

definition MAX_ERRORS :: int where
  "MAX_ERRORS = 5"

section \<open>Process state and the outside world\<close>

text \<open>
  The effects of a run are recorded in order. Every effect of the loop carries the
  position of the subscription being processed: the request of the probe, a delivered
  push (token, title, link) and a successful commit.
\<close>

datatype event =
    HttpGet nat string
  | PushLink nat string string string
  | Commit nat

fun item_of :: "event \<Rightarrow> nat" where
  "item_of (HttpGet i u) = i"
| "item_of (PushLink i tok title link) = i"
| "item_of (Commit i) = i"

text \<open>The lines the code prints.\<close>

datatype line =
    PushFailed exn
  | AllFailed int
  | Skipping
  | RunError exn

text \<open>
  The state: the committed rows of the table in query order, the module-level counter
  \<open>consecutive_errors\<close>, the effects so far and the printed lines.
\<close>

record proc =
  store :: "UserData list"
  consecutive_errors :: int
  trace :: "event list"
  stdout :: "line list"

text \<open>
  The behaviour of the collaborators during one run: whether the query for all rows
  raises, what the request made for the subscription at a position returns, whether
  the constructor of the Pushbullet client or its \<open>push_link\<close> raises there, and
  whether the commit there raises. The randomised sleep before each probe has no effect
  on the state and is left out.
\<close>

record world =
  query_all_exn :: "exn option"
  requests_get :: "nat \<Rightarrow> string \<Rightarrow> http_outcome"
  Pushbullet_exn :: "nat \<Rightarrow> string \<Rightarrow> exn option"
  push_link_exn :: "nat \<Rightarrow> string \<Rightarrow> string \<Rightarrow> string \<Rightarrow> exn option"
  commit_exn :: "nat \<Rightarrow> exn option"

definition emit :: "event \<Rightarrow> proc \<Rightarrow> proc" where
  "emit e s = s\<lparr>trace := trace s @ [e]\<rparr>"

definition print :: "line \<Rightarrow> proc \<Rightarrow> proc" where
  "print l s = s\<lparr>stdout := stdout s @ [l]\<rparr>"

section \<open>The prober\<close>

text \<open>
  \<open>slots_of\<close> is the body of \<open>get_available_slots\<close> after the request: the decision on
  the outcome and the count of the marker among the text nodes.
\<close>

definition slots_of :: "http_outcome \<Rightarrow> int option" where
  "slots_of r =
     (case r of
        RequestException m \<Rightarrow> None
      | Response resp \<Rightarrow>
          if status_code resp \<noteq> 200 \<or> url resp = landing_page then None
          else Some (int (length (filter (\<lambda>t. t = yoyaku_ka) (strings (content resp))))))"

definition get_available_slots :: "world \<Rightarrow> nat \<Rightarrow> string \<Rightarrow> proc \<Rightarrow> int option \<times> proc" where
  "get_available_slots w i tid s =
     (slots_of (requests_get w i (load_url tid)), emit (HttpGet i (load_url tid)) s)"

section \<open>The notifier\<close>

definition send_push_notification ::
  "world \<Rightarrow> nat \<Rightarrow> string \<Rightarrow> string \<Rightarrow> string option \<Rightarrow> proc \<Rightarrow> (exn + unit) \<times> proc" where
  "send_push_notification w i user_token tid name s =
     (case Pushbullet_exn w i user_token of
        Some e \<Rightarrow> (Inr (), print (PushFailed e) s)
      | None \<Rightarrow>
          (case push_link_exn w i user_token (str_of name @ title_suffix) (load_url tid) of
             Some e \<Rightarrow> (Inr (), print (PushFailed e) s)
           | None \<Rightarrow>
               (Inr (), emit (PushLink i user_token (str_of name @ title_suffix) (load_url tid)) s)))"

section \<open>The poll run\<close>

text \<open>
  The commit after the assignment to \<open>user.last_available_count\<close>: it raises, or it
  writes the one changed row, which is the row at the position of \<open>user\<close>.
\<close>

definition commit_count :: "world \<Rightarrow> nat \<Rightarrow> UserData \<Rightarrow> int \<Rightarrow> proc \<Rightarrow> (exn + unit) \<times> proc" where
  "commit_count w i user c s =
     (case commit_exn w i of
        Some e \<Rightarrow> (Inl e, s)
      | None \<Rightarrow>
          (Inr (), emit (Commit i)
             (s\<lparr>store := (store s)[i := user\<lparr>last_available_count := c\<rparr>]\<rparr>)))"

text \<open>
  The body of the loop for \<open>user\<close> at position \<open>i\<close>, with the local
  \<open>error_count_this_run\<close>: it returns the error count after this subscription, or
  the exception that left it.
\<close>

definition loop_body :: "world \<Rightarrow> nat \<Rightarrow> UserData \<Rightarrow> int \<Rightarrow> proc \<Rightarrow> (exn + int) \<times> proc" where
  "loop_body w i user error_count s =
     (case get_available_slots w i (teacher_id user) s of
        (None, s1) \<Rightarrow> (Inr (error_count + 1), s1)
      | (Some current_count, s1) \<Rightarrow>
          (case (if current_count > last_available_count user
                 then send_push_notification w i (pushbullet_token user) (teacher_id user)
                        (teacher_name user) s1
                 else (Inr (), s1)) of
             (Inl e, s2) \<Rightarrow> (Inl e, s2)
           | (Inr u, s2) \<Rightarrow>
               (case commit_count w i user current_count s2 of
                  (Inl e, s3) \<Rightarrow> (Inl e, s3)
                | (Inr u', s3) \<Rightarrow> (Inr error_count, s3))))"

text \<open>The loop over \<open>users\<close>, from position \<open>i\<close>; an exception ends it.\<close>

fun for_users :: "world \<Rightarrow> nat \<Rightarrow> UserData list \<Rightarrow> int \<Rightarrow> proc \<Rightarrow> (exn + int) \<times> proc" where
  "for_users w i [] error_count s = (Inr error_count, s)"
| "for_users w i (user # users) error_count s =
     (case loop_body w i user error_count s of
        (Inl e, s1) \<Rightarrow> (Inl e, s1)
      | (Inr error_count', s1) \<Rightarrow> for_users w (Suc i) users error_count' s1)"

text \<open>The body of the \<open>try\<close> block.\<close>

definition try_block :: "world \<Rightarrow> proc \<Rightarrow> (exn + unit) \<times> proc" where
  "try_block w s =
     (case query_all_exn w of
        Some e \<Rightarrow> (Inl e, s)
      | None \<Rightarrow>
          (let users = store s in
           case for_users w 0 users 0 s of
             (Inl e, s1) \<Rightarrow> (Inl e, s1)
           | (Inr error_count_this_run, s1) \<Rightarrow>
               if error_count_this_run = int (length users) then
                 (let s2 = print (AllFailed (consecutive_errors s1 + 1))
                             (s1\<lparr>consecutive_errors := consecutive_errors s1 + 1\<rparr>)
                  in if consecutive_errors s2 \<ge> MAX_ERRORS
                     then (Inr (), print Skipping s2)
                     else (Inr (), s2))
               else (Inr (), s1\<lparr>consecutive_errors := 0\<rparr>)))"

text \<open>
  The function the scheduler calls. Its result is \<open>Inl e\<close> when the exception \<open>e\<close>
  leaves it.
\<close>

definition check_teacher_availability :: "world \<Rightarrow> proc \<Rightarrow> (exn + unit) \<times> proc" where
  "check_teacher_availability w s =
     (case try_block w s of
        (Inl e, s1) \<Rightarrow> (Inr (), print (RunError e) s1)
      | (Inr u, s1) \<Rightarrow> (Inr (), s1))"

text \<open>
  The scheduler fires one run after the other, each against the behaviour of the world
  at that time; an exception that left a run would end the sequence.
\<close>

fun scheduler :: "world list \<Rightarrow> proc \<Rightarrow> (exn + unit) \<times> proc" where
  "scheduler [] s = (Inr (), s)"
| "scheduler (w # ws) s =
     (case check_teacher_availability w s of
        (Inl e, s1) \<Rightarrow> (Inl e, s1)
      | (Inr u, s1) \<Rightarrow> scheduler ws s1)"

section \<open>The registration pages\<close>

text \<open>
  What the handlers read of a request: its method, the user id of the session and the
  two form fields (absent fields are \<open>None\<close>). What they need of the environment: the
  current time, the test \<open>str.isdigit\<close> and the HTTP client. A reply is a redirect
  with the message flashed, a rendered page, or the error page that an uncaught
  exception produces.
\<close>

datatype http_method = GET | POST

record request =
  request_method :: http_method
  session_user_id :: "string option"
  form_teacher_id :: "string option"
  form_pushbullet_token :: "string option"

record web =
  utcnow :: int
  isdigit :: "string \<Rightarrow> bool"
  web_get :: "string \<Rightarrow> http_outcome"

datatype flash =
    MaxTeachers
  | DigitsOnly
  | AllFieldsRequired
  | AlreadyRegistered
  | NameNotFound
  | Registered string string
  | Deleted string
  | NotRegistered
  | ResetDone

datatype reply =
    Redirect string "flash option"
  | Render string
  | InternalServerError

text \<open>Python's truth value of an optional string: \<open>None\<close> and the empty string are false.\<close>

definition truthy :: "string option \<Rightarrow> bool" where
  "truthy x = (case x of None \<Rightarrow> False | Some v \<Rightarrow> v \<noteq> [])"

definition get_teacher_name :: "web \<Rightarrow> string \<Rightarrow> string option" where
  "get_teacher_name env tid =
     (case web_get env (load_url tid) of
        RequestException m \<Rightarrow> None
      | Response resp \<Rightarrow>
          if url resp = landing_page then None else find_h1_text (content resp))"

text \<open>The key of a new row: one more than the largest key in use.\<close>

definition next_id :: "UserData list \<Rightarrow> int" where
  "next_id db = fold max (map id_pk db) 0 + 1"

definition touch :: "string \<Rightarrow> int \<Rightarrow> UserData list \<Rightarrow> UserData list" where
  "touch uid t db = map (\<lambda>r. if user_id r = uid then r\<lparr>last_accessed := t\<rparr> else r) db"

definition index :: "web \<Rightarrow> request \<Rightarrow> UserData list \<Rightarrow> reply \<times> UserData list" where
  "index env req db =
     (if \<not> truthy (session_user_id req) then (Redirect ''/set_user'' None, db)
      else
        let uid = the (session_user_id req);
            db1 = (if filter (\<lambda>r. user_id r = uid) db \<noteq> [] then touch uid (utcnow env) db
                   else db);
            total_teachers = int (length (filter (\<lambda>r. user_id r = uid) db1))
        in
          if request_method req = POST then
            if total_teachers \<ge> 10 then (Redirect ''/'' (Some MaxTeachers), db1)
            else
              (case form_teacher_id req of
                 None \<Rightarrow> (InternalServerError, db1)
               | Some tid \<Rightarrow>
                   if \<not> isdigit env tid then (Redirect ''/'' (Some DigitsOnly), db1)
                   else if tid = [] \<or> \<not> truthy (form_pushbullet_token req)
                     then (Redirect ''/'' (Some AllFieldsRequired), db1)
                   else if filter (\<lambda>r. teacher_id r = tid \<and> user_id r = uid) db1 \<noteq> []
                     then (Redirect ''/'' (Some AlreadyRegistered), db1)
                   else
                     (case get_teacher_name env tid of
                        None \<Rightarrow> (Redirect ''/'' (Some NameNotFound), db1)
                      | Some name \<Rightarrow>
                          if name = [] then (Redirect ''/'' (Some NameNotFound), db1)
                          else
                            (Redirect ''/'' (Some (Registered name tid)),
                             db1 @ [\<lparr>id_pk = next_id db1, teacher_id = tid,
                                     teacher_name = Some name,
                                     pushbullet_token = the (form_pushbullet_token req),
                                     last_available_count = 0, user_id = uid,
                                     last_accessed = utcnow env\<rparr>])))
          else (Render ''index.html'', db1))"






section \<open>Notions used to state the properties of the loop\<close>

text \<open>
  \<open>probe w i u\<close> is what the prober returns for subscription \<open>u\<close> at position \<open>i\<close>.
  \<open>notified\<close> is the push delivered for it when the notifier is called,
  \<open>body_events\<close> the effects of one pass of the loop body, \<open>aborts\<close> says that the
  pass ends in an exception (its commit raises), \<open>loop_events\<close> collects the effects of
  the loop, \<open>reaches w i us k\<close> says that the loop over \<open>us\<close> from position \<open>i\<close> gets to
  its \<open>k\<close>-th subscription, and \<open>failures\<close> counts the failed probes.
\<close>

abbreviation probe :: "world \<Rightarrow> nat \<Rightarrow> UserData \<Rightarrow> int option" where
  "probe w i u \<equiv> slots_of (requests_get w i (load_url (teacher_id u)))"

definition notified :: "world \<Rightarrow> nat \<Rightarrow> UserData \<Rightarrow> event list" where
  "notified w i u =
     (if Pushbullet_exn w i (pushbullet_token u) = None
         \<and> push_link_exn w i (pushbullet_token u) (str_of (teacher_name u) @ title_suffix)
              (load_url (teacher_id u)) = None
      then [PushLink i (pushbullet_token u) (str_of (teacher_name u) @ title_suffix)
              (load_url (teacher_id u))]
      else [])"

definition body_events :: "world \<Rightarrow> nat \<Rightarrow> UserData \<Rightarrow> event list" where
  "body_events w i u =
     HttpGet i (load_url (teacher_id u)) #
       (case probe w i u of
          None \<Rightarrow> []
        | Some c \<Rightarrow>
            (if c > last_available_count u then notified w i u else []) @
            (case commit_exn w i of Some e \<Rightarrow> [] | None \<Rightarrow> [Commit i]))"

definition aborts :: "world \<Rightarrow> nat \<Rightarrow> UserData \<Rightarrow> bool" where
  "aborts w i u = (case probe w i u of None \<Rightarrow> False
                   | Some c \<Rightarrow> (case commit_exn w i of None \<Rightarrow> False | Some e \<Rightarrow> True))"

fun loop_events :: "world \<Rightarrow> nat \<Rightarrow> UserData list \<Rightarrow> event list" where
  "loop_events w i [] = []"
| "loop_events w i (u # us) =
     body_events w i u @ (if aborts w i u then [] else loop_events w (Suc i) us)"

fun reaches :: "world \<Rightarrow> nat \<Rightarrow> UserData list \<Rightarrow> nat \<Rightarrow> bool" where
  "reaches w i us 0 = True"
| "reaches w i [] (Suc k) = True"
| "reaches w i (u # us) (Suc k) = (if aborts w i u then False else reaches w (Suc i) us k)"

fun failures :: "world \<Rightarrow> nat \<Rightarrow> UserData list \<Rightarrow> nat" where
  "failures w i [] = 0"
| "failures w i (u # us) =
     (case probe w i u of None \<Rightarrow> Suc (failures w (Suc i) us)
      | Some c \<Rightarrow> failures w (Suc i) us)"

fun is_push :: "event \<Rightarrow> bool" where
  "is_push (PushLink i tok title link) = True"
| "is_push e = False"

section \<open>Example data\<close>

text \<open>A page of a teacher with \<open>n\<close> bookable slots, and two subscriptions.\<close>

definition page :: "string \<Rightarrow> nat \<Rightarrow> http_outcome" where
  "page tid n =
     Response \<lparr>status_code = 200, url = load_url tid,
       content = Soup (Some ''Teacher'') (''Schedule'' # replicate n yoyaku_ka)\<rparr>"


definition ann :: UserData where
  "ann = \<lparr>id_pk = 1, teacher_id = ''101'', teacher_name = Some ''Ann'',
           pushbullet_token = ''token-a'', last_available_count = 0,
           user_id = ''user_a'', last_accessed = 0\<rparr>"

definition bob :: UserData where
  "bob = \<lparr>id_pk = 2, teacher_id = ''202'', teacher_name = Some ''Bob'',
           pushbullet_token = ''token-b'', last_available_count = 5,
           user_id = ''user_b'', last_accessed = 0\<rparr>"

definition start :: "UserData list \<Rightarrow> int \<Rightarrow> proc" where
  "start rows n = \<lparr>store = rows, consecutive_errors = n, trace = [], stdout = []\<rparr>"

text \<open>
  A world in which nothing raises and the request at position \<open>i\<close> returns what
  \<open>pages\<close> says.
\<close>

definition calm :: "(nat \<Rightarrow> http_outcome) \<Rightarrow> world" where
  "calm pages =
     \<lparr>query_all_exn = None, requests_get = (\<lambda>i u. pages i),
      Pushbullet_exn = (\<lambda>i tok. None), push_link_exn = (\<lambda>i tok title link. None),
      commit_exn = (\<lambda>i. None)\<rparr>"

text \<open>Variants of a world: the push service is down, or the commit at one position raises.\<close>

definition push_down :: "world \<Rightarrow> world" where
  "push_down w = w\<lparr>push_link_exn := (\<lambda>i tok title link. Some (Exception ''push failed''))\<rparr>"

definition commit_down :: "nat \<Rightarrow> world \<Rightarrow> world" where
  "commit_down k w =
     w\<lparr>commit_exn := (\<lambda>i. if i = k then Some (Exception ''database is locked'') else None)\<rparr>"


text \<open>A world in which the query for all rows raises.\<close>

definition query_down :: "world \<Rightarrow> world" where
  "query_down w = w\<lparr>query_all_exn := Some (Exception ''no such table'')\<rparr>"




section \<open>The prober: counts and the failure marker\<close>


lemma schedule_not_marker: "''Schedule'' \<noteq> yoyaku_ka"
proof
  assume "''Schedule'' = yoyaku_ka"
  then have "length ''Schedule'' = length yoyaku_ka" by simp
  then show False by (simp add: yoyaku_ka_def)
qed




section \<open>The loop, one subscription at a time\<close>

lemma send_push_result: "fst (send_push_notification w i tok tid name s) = Inr ()"
  by (simp add: send_push_notification_def split: option.splits)

lemma loop_body_result:
  "fst (loop_body w i u ec s) =
     (case probe w i u of
        None \<Rightarrow> Inr (ec + 1)
      | Some c \<Rightarrow> (case commit_exn w i of Some e \<Rightarrow> Inl e | None \<Rightarrow> Inr ec))"
  by (simp add: loop_body_def get_available_slots_def commit_count_def
        send_push_notification_def split: option.splits)

lemma loop_body_store:
  "store (snd (loop_body w i u ec s)) =
     (case probe w i u of
        None \<Rightarrow> store s
      | Some c \<Rightarrow> (case commit_exn w i of
                     Some e \<Rightarrow> store s
                   | None \<Rightarrow> (store s)[i := u\<lparr>last_available_count := c\<rparr>]))"
  by (simp add: loop_body_def get_available_slots_def commit_count_def
        send_push_notification_def emit_def print_def split: option.splits)

lemma loop_body_ce:
  "consecutive_errors (snd (loop_body w i u ec s)) = consecutive_errors s"
  by (simp add: loop_body_def get_available_slots_def commit_count_def
        send_push_notification_def emit_def print_def split: option.splits)

lemma loop_body_trace:
  "trace (snd (loop_body w i u ec s)) = trace s @ body_events w i u"
  by (auto simp add: loop_body_def get_available_slots_def commit_count_def notified_def
        body_events_def send_push_notification_def emit_def print_def split: option.splits)

lemma loop_body_Inl: "fst (loop_body w i u ec s) = Inl e \<Longrightarrow> aborts w i u"
  by (simp add: loop_body_result aborts_def split: option.splits)

lemma loop_body_Inr: "fst (loop_body w i u ec s) = Inr ec' \<Longrightarrow> \<not> aborts w i u"
  by (simp add: loop_body_result aborts_def split: option.splits)

lemma for_users_trace:
  "trace (snd (for_users w i us ec s)) = trace s @ loop_events w i us"
proof (induction us arbitrary: i ec s)
  case Nil
  show ?case by simp
next
  case (Cons u us)
  obtain r s1 where b: "loop_body w i u ec s = (r, s1)" by (cases "loop_body w i u ec s")
  have t: "trace s1 = trace s @ body_events w i u"
    using loop_body_trace [of w i u ec s] b by simp
  show ?case
  proof (cases r)
    case (Inl e)
    then have "aborts w i u" using loop_body_Inl [of w i u ec s e] b by simp
    then show ?thesis using b Inl t by simp
  next
    case (Inr ec')
    then have "\<not> aborts w i u" using loop_body_Inr [of w i u ec s ec'] b by simp
    then show ?thesis using b Inr t Cons.IH [of "Suc i" ec' s1] by simp
  qed
qed

lemma body_events_item: "e \<in> set (body_events w i u) \<Longrightarrow> item_of e = i"
  by (auto simp: body_events_def notified_def split: option.splits if_splits)

lemma loop_events_item:
  "e \<in> set (loop_events w i us) \<Longrightarrow> i \<le> item_of e \<and> item_of e < i + length us"
proof (induction us arbitrary: i)
  case Nil
  then show ?case by simp
next
  case (Cons u us)
  then show ?case
    by (fastforce dest: body_events_item split: if_splits)
qed

lemma loop_events_sorted: "sorted (map item_of (loop_events w i us))"
proof (induction us arbitrary: i)
  case Nil
  show ?case by simp
next
  case (Cons u us)
  have "\<forall>x \<in> set (body_events w i u). \<forall>y \<in> set (loop_events w (Suc i) us). item_of x \<le> item_of y"
    using body_events_item loop_events_item by fastforce
  moreover have "sorted (map item_of (body_events w i u))"
    using body_events_item [of _ w i u] by (simp add: sorted_wrt_iff_nth_less sorted_map)
  ultimately show ?case using Cons.IH [of "Suc i"]
    by (auto simp: sorted_append)
qed

lemma filter_item_body_other:
  "j \<noteq> i \<Longrightarrow> filter (\<lambda>e. item_of e = j) (body_events w i u) = []"
  using body_events_item [of _ w i u] by (auto simp: filter_empty_conv)

lemma filter_item_body_same:
  "filter (\<lambda>e. item_of e = i) (body_events w i u) = body_events w i u"
  using body_events_item [of _ w i u] by (auto simp: filter_id_conv)

lemma filter_item_loop_later:
  "j < i \<Longrightarrow> filter (\<lambda>e. item_of e = j) (loop_events w i us) = []"
  using loop_events_item [of _ w i us] by (fastforce simp: filter_empty_conv)

text \<open>The effects at position k of the loop are those of its body there, if the loop gets there.\<close>

lemma loop_events_filter:
  "k < length us \<Longrightarrow>
     filter (\<lambda>e. item_of e = i + k) (loop_events w i us) =
       (if reaches w i us k then body_events w (i + k) (us ! k) else [])"
proof (induction us arbitrary: i k)
  case Nil
  then show ?case by simp
next
  case (Cons u us)
  show ?case
  proof (cases k)
    case 0
    then show ?thesis
      by (simp add: filter_item_body_same filter_item_loop_later)
  next
    case (Suc k')
    then have k': "k' < length us" using Cons.prems by simp
    have "filter (\<lambda>e. item_of e = Suc i + k') (loop_events w (Suc i) us) =
            (if reaches w (Suc i) us k' then body_events w (Suc i + k') (us ! k') else [])"
      by (rule Cons.IH [OF k'])
    then show ?thesis using Suc by (simp add: filter_item_body_other)
  qed
qed


lemma for_users_below:
  "j < i \<Longrightarrow> store (snd (for_users w i us ec s)) ! j = store s ! j"
proof (induction us arbitrary: i ec s)
  case Nil
  show ?case by simp
next
  case (Cons u us)
  obtain r s1 where b: "loop_body w i u ec s = (r, s1)" by (cases "loop_body w i u ec s")
  have "store s1 ! j = store s ! j"
    using loop_body_store [of w i u ec s] b Cons.prems by (simp split: option.splits)
  then show ?case using Cons.IH [of "Suc i"] Cons.prems b by (cases r) simp_all
qed

text \<open>The row at position k after the loop.\<close>

lemma for_users_row:
  assumes "k < length us" and "i + length us \<le> length (store s)"
  shows "store (snd (for_users w i us ec s)) ! (i + k) =
           (if reaches w i us k then
              (case probe w (i + k) (us ! k) of
                 None \<Rightarrow> store s ! (i + k)
               | Some c \<Rightarrow> (case commit_exn w (i + k) of
                              Some e \<Rightarrow> store s ! (i + k)
                            | None \<Rightarrow> (us ! k)\<lparr>last_available_count := c\<rparr>))
            else store s ! (i + k))"
  using assms
proof (induction us arbitrary: i k ec s)
  case Nil
  then show ?case by simp
next
  case (Cons u us)
  obtain r s1 where b: "loop_body w i u ec s = (r, s1)" by (cases "loop_body w i u ec s")
  have st: "store s1 = (case probe w i u of None \<Rightarrow> store s
              | Some c \<Rightarrow> (case commit_exn w i of Some e \<Rightarrow> store s
                            | None \<Rightarrow> (store s)[i := u\<lparr>last_available_count := c\<rparr>]))"
    using loop_body_store [of w i u ec s] b by simp
  have len: "length (store s1) = length (store s)"
    using st by (simp split: option.splits)
  have il: "i < length (store s)" using Cons.prems(2) by simp
  show ?case
  proof (cases r)
    case (Inl e)
    then have ab: "aborts w i u" using loop_body_Inl [of w i u ec s e] b by simp
    then have "store s1 = store s" using st by (simp add: aborts_def split: option.splits)
    then show ?thesis using b Inl ab
      by (cases k) (simp_all add: aborts_def split: option.splits)
  next
    case (Inr ec')
    then have nab: "\<not> aborts w i u" using loop_body_Inr [of w i u ec s ec'] b by simp
    show ?thesis
    proof (cases k)
      case 0
      have "store (snd (for_users w (Suc i) us ec' s1)) ! i = store s1 ! i"
        by (rule for_users_below) simp
      then show ?thesis using 0 b Inr st il nab
        by (simp add: aborts_def split: option.splits)
    next
      case (Suc k')
      have "store (snd (for_users w (Suc i) us ec' s1)) ! (Suc i + k') =
             (if reaches w (Suc i) us k' then
                (case probe w (Suc i + k') (us ! k') of
                   None \<Rightarrow> store s1 ! (Suc i + k')
                 | Some c \<Rightarrow> (case commit_exn w (Suc i + k') of
                                Some e \<Rightarrow> store s1 ! (Suc i + k')
                              | None \<Rightarrow> (us ! k')\<lparr>last_available_count := c\<rparr>))
              else store s1 ! (Suc i + k'))"
        using Cons.prems Suc len by (intro Cons.IH) auto
      moreover have "store s1 ! (Suc i + k') = store s ! (Suc i + k')"
        using st by (simp split: option.splits)
      ultimately show ?thesis using Suc b Inr nab by (simp split: option.splits)
    qed
  qed
qed

lemma for_users_ce:
  "consecutive_errors (snd (for_users w i us ec s)) = consecutive_errors s"
proof (induction us arbitrary: i ec s)
  case Nil
  show ?case by simp
next
  case (Cons u us)
  obtain r s1 where b: "loop_body w i u ec s = (r, s1)" by (cases "loop_body w i u ec s")
  have "consecutive_errors s1 = consecutive_errors s"
    using loop_body_ce [of w i u ec s] b by simp
  then show ?case using Cons.IH b by (cases r) simp_all
qed

lemma for_users_Inr:
  "reaches w i us (length us) \<Longrightarrow>
     fst (for_users w i us ec s) = Inr (ec + int (failures w i us))"
proof (induction us arbitrary: i ec s)
  case Nil
  show ?case by simp
next
  case (Cons u us)
  have nab: "\<not> aborts w i u" and rest: "reaches w (Suc i) us (length us)"
    using Cons.prems by (simp_all split: if_splits)
  obtain r s1 where b: "loop_body w i u ec s = (r, s1)" by (cases "loop_body w i u ec s")
  have r: "r = Inr (case probe w i u of None \<Rightarrow> ec + 1 | Some c \<Rightarrow> ec)"
    using loop_body_result [of w i u ec s] b nab
    by (simp add: aborts_def split: option.splits)
  show ?case using b r Cons.IH [OF rest] by (simp split: option.splits)
qed

lemma for_users_Inl:
  "\<not> reaches w i us (length us) \<Longrightarrow> \<exists>e. fst (for_users w i us ec s) = Inl e"
proof (induction us arbitrary: i ec s)
  case Nil
  then show ?case by simp
next
  case (Cons u us)
  obtain r s1 where b: "loop_body w i u ec s = (r, s1)" by (cases "loop_body w i u ec s")
  show ?case
  proof (cases r)
    case (Inl e)
    then show ?thesis using b by simp
  next
    case (Inr ec')
    then have "\<not> aborts w i u" using loop_body_Inr [of w i u ec s ec'] b by simp
    then have "\<not> reaches w (Suc i) us (length us)" using Cons.prems by simp
    then show ?thesis using Cons.IH b Inr by simp
  qed
qed

lemma failures_le: "failures w i us \<le> length us"
  by (induction us arbitrary: i) (auto split: option.splits intro: le_SucI)

lemma failures_all:
  "failures w i us = length us \<longleftrightarrow> (\<forall>k < length us. probe w (i + k) (us ! k) = None)"
proof (induction us arbitrary: i)
  case Nil
  show ?case by simp
next
  case (Cons u us)
  have le: "failures w (Suc i) us \<le> length us" by (rule failures_le)
  show ?case
  proof (cases "probe w i u")
    case None
    then show ?thesis using Cons.IH [of "Suc i"]
      by (auto simp: All_less_Suc2)
  next
    case (Some c)
    then have "failures w i (u # us) \<noteq> length (u # us)" using le by simp
    moreover have "\<not> (\<forall>k < length (u # us). probe w (i + k) ((u # us) ! k) = None)"
      using Some by (auto intro: exI [of _ 0])
    ultimately show ?thesis by blast
  qed
qed

lemma reaches_all_fail:
  "(\<And>k. k < length us \<Longrightarrow> probe w (i + k) (us ! k) = None) \<Longrightarrow> reaches w i us n"
proof (induction w i us n rule: reaches.induct)
  case (1 w i us)
  show ?case by simp
next
  case (2 w i k)
  show ?case by simp
next
  case (3 w i u us k)
  have "probe w i u = None" using "3.prems" [of 0] by simp
  then have nab: "\<not> aborts w i u" by (simp add: aborts_def)
  have "reaches w (Suc i) us k"
  proof (rule "3.IH" [OF nab])
    fix j assume "j < length us"
    then show "probe w (Suc i + j) (us ! j) = None" using "3.prems" [of "Suc j"] by simp
  qed
  then show ?case using nab by simp
qed

lemma check_fst: "fst (check_teacher_availability w s) = Inr ()"
  by (simp add: check_teacher_availability_def split: prod.splits sum.splits)

lemma check_store:
  "store (snd (check_teacher_availability w s)) =
     (case query_all_exn w of Some e \<Rightarrow> store s
      | None \<Rightarrow> store (snd (for_users w 0 (store s) 0 s)))"
  by (auto simp: check_teacher_availability_def try_block_def print_def Let_def
        split: prod.splits sum.splits option.splits)

lemma check_trace:
  "trace (snd (check_teacher_availability w s)) =
     trace s @ (case query_all_exn w of Some e \<Rightarrow> [] | None \<Rightarrow> loop_events w 0 (store s))"
proof (cases "query_all_exn w")
  case None
  have "trace (snd (check_teacher_availability w s)) = trace (snd (for_users w 0 (store s) 0 s))"
    using None
    by (auto simp: check_teacher_availability_def try_block_def print_def Let_def
          split: prod.splits sum.splits option.splits)
  then show ?thesis using None by (simp add: for_users_trace)
next
  case (Some e)
  then show ?thesis
    by (simp add: check_teacher_availability_def try_block_def print_def)
qed

lemma check_ce:
  "consecutive_errors (snd (check_teacher_availability w s)) =
     (case query_all_exn w of Some e \<Rightarrow> consecutive_errors s
      | None \<Rightarrow>
         (case fst (for_users w 0 (store s) 0 s) of
            Inl e \<Rightarrow> consecutive_errors s
          | Inr n \<Rightarrow> if n = int (length (store s)) then consecutive_errors s + 1 else 0))"
proof (cases "query_all_exn w")
  case (Some e)
  then show ?thesis
    by (simp add: check_teacher_availability_def try_block_def print_def)
next
  case None
  obtain r s1 where f: "for_users w 0 (store s) 0 s = (r, s1)"
    by (cases "for_users w 0 (store s) 0 s")
  have "consecutive_errors s1 = consecutive_errors s"
    using for_users_ce [of w 0 "store s" 0 s] f by simp
  then show ?thesis using None f
    by (cases r) (simp_all add: check_teacher_availability_def try_block_def print_def Let_def)
qed

section \<open>A run, one subscription at a time\<close>

lemma slots_of_page: "slots_of (page tid n) = Some (int n)"
  by (simp add: slots_of_def page_def landing_page_def load_url_def schedule_not_marker)

lemma pushes_body:
  "filter is_push (body_events w i u) =
     (case probe w i u of None \<Rightarrow> []
      | Some c \<Rightarrow> if c > last_available_count u then notified w i u else [])"
  by (simp add: body_events_def notified_def split: option.splits)

lemma run_row:
  assumes "query_all_exn w = None" and "k < length (store s)"
  shows "store (snd (check_teacher_availability w s)) ! k =
           (if reaches w 0 (store s) k then
              (case probe w k (store s ! k) of
                 None \<Rightarrow> store s ! k
               | Some c \<Rightarrow> (case commit_exn w k of
                              Some e \<Rightarrow> store s ! k
                            | None \<Rightarrow> (store s ! k)\<lparr>last_available_count := c\<rparr>))
            else store s ! k)"
  using for_users_row [of k "store s" 0 s w 0] assms
  by (simp add: check_store split: option.splits)

lemma run_events_at:
  assumes "k < length (store s)"
  shows "filter (\<lambda>e. item_of e = k) (trace (snd (check_teacher_availability w s))) =
           filter (\<lambda>e. item_of e = k) (trace s) @
             (if query_all_exn w = None \<and> reaches w 0 (store s) k
              then body_events w k (store s ! k) else [])"
  using loop_events_filter [of k "store s" 0 w] assms
  by (simp add: check_trace split: option.splits)

lemma run_pushes_at:
  assumes "k < length (store s)"
  shows "filter (\<lambda>e. is_push e \<and> item_of e = k) (trace (snd (check_teacher_availability w s))) =
           filter (\<lambda>e. is_push e \<and> item_of e = k) (trace s) @
             (if query_all_exn w = None \<and> reaches w 0 (store s) k
              then (case probe w k (store s ! k) of None \<Rightarrow> []
                    | Some c \<Rightarrow> if c > last_available_count (store s ! k)
                                then notified w k (store s ! k) else [])
              else [])"
proof -
  have h: "filter (\<lambda>e. is_push e \<and> item_of e = k) xs
          = filter is_push (filter (\<lambda>e. item_of e = k) xs)" for xs
    by (simp add: conj_commute)
  show ?thesis unfolding h run_events_at [OF assms, of w]
    by (simp add: pushes_body)
qed

lemma http_in_body: "HttpGet i (load_url (teacher_id u)) \<in> set (body_events w i u)"
  by (simp add: body_events_def)

lemma run_probed:
  assumes "k < length (store s)" and "query_all_exn w = None" and "reaches w 0 (store s) k"
  shows "HttpGet k (load_url (teacher_id (store s ! k)))
           \<in> set (trace (snd (check_teacher_availability w s)))"
proof -
  have "HttpGet k (load_url (teacher_id (store s ! k)))
          \<in> set (filter (\<lambda>e. item_of e = k) (trace (snd (check_teacher_availability w s))))"
    unfolding run_events_at [OF assms(1), of w] using assms(2,3) http_in_body by simp
  then show ?thesis by simp
qed

text \<open>
  Claim C1. In a run that reads the table and gets to the subscription at position \<open>k\<close>,
  if the probe succeeds with a count \<open>c'\<close> above the stored one, then: when the
  notifier does not raise, exactly one push is delivered for that subscription, with a
  title made of its name and a link made of its teacher id; and when the commit of that
  subscription does not raise, its stored count after the run is \<open>c'\<close> (the rest of
  the row is unchanged).
\<close>

theorem increase_notifies_once:
  assumes "query_all_exn w = None" and "k < length (store s)"
    and "reaches w 0 (store s) k"
    and "probe w k (store s ! k) = Some c'"
    and "c' > last_available_count (store s ! k)"
  shows "(Pushbullet_exn w k (pushbullet_token (store s ! k)) = None
          \<and> push_link_exn w k (pushbullet_token (store s ! k))
                (str_of (teacher_name (store s ! k)) @ title_suffix)
                (load_url (teacher_id (store s ! k))) = None
          \<longrightarrow> filter (\<lambda>e. is_push e \<and> item_of e = k)
                (trace (snd (check_teacher_availability w s)))
              = filter (\<lambda>e. is_push e \<and> item_of e = k) (trace s) @
                  [PushLink k (pushbullet_token (store s ! k))
                     (str_of (teacher_name (store s ! k)) @ title_suffix)
                     (load_url (teacher_id (store s ! k)))])
       \<and> (commit_exn w k = None
          \<longrightarrow> store (snd (check_teacher_availability w s)) ! k
                = (store s ! k)\<lparr>last_available_count := c'\<rparr>)"
proof -
  have a: "filter (\<lambda>e. is_push e \<and> item_of e = k)
             (trace (snd (check_teacher_availability w s)))
           = filter (\<lambda>e. is_push e \<and> item_of e = k) (trace s) @ notified w k (store s ! k)"
    using run_pushes_at [OF assms(2), of w] assms(1,3,4,5) by simp
  have b: "store (snd (check_teacher_availability w s)) ! k
             = (store s ! k)\<lparr>last_available_count := c'\<rparr>" if "commit_exn w k = None"
    using run_row [OF assms(1,2)] assms(3,4) that by simp
  show ?thesis using a b by (simp add: notified_def)
qed

theorem increase_notifies_once_witness:
  "store (snd (check_teacher_availability (calm (\<lambda>i. page ''101'' 3)) (start [ann] 0))) ! 0
     = ann\<lparr>last_available_count := 3\<rparr>
   \<and> filter (\<lambda>e. is_push e \<and> item_of e = 0)
       (trace (snd (check_teacher_availability (calm (\<lambda>i. page ''101'' 3)) (start [ann] 0))))
     = [PushLink 0 ''token-a'' (''Ann'' @ title_suffix) (load_url ''101'')]"
  using increase_notifies_once [of "calm (\<lambda>i. page ''101'' 3)" 0 "start [ann] 0" 3]
  by (simp add: calm_def start_def ann_def slots_of_page str_of_def)

text \<open>
  Without the two conditions the statement of C1 fails. The subscription \<open>ann\<close> has
  the stored count 0 and its probe returns 3. When its commit raises, the request is
  made and the push is delivered, and the stored count after the run is still 0. When
  \<open>push_link\<close> raises, the request is made and no push is delivered.
\<close>

theorem increase_notifies_once_counterexample:
  "probe (commit_down 0 (calm (\<lambda>i. page ''101'' 3))) 0 (store (start [ann] 0) ! 0) = Some 3
   \<and> last_available_count (store (start [ann] 0) ! 0) < 3
   \<and> HttpGet 0 (load_url ''101'')
       \<in> set (trace (snd (check_teacher_availability
                 (commit_down 0 (calm (\<lambda>i. page ''101'' 3))) (start [ann] 0))))
   \<and> filter (\<lambda>e. is_push e \<and> item_of e = 0)
       (trace (snd (check_teacher_availability
                 (commit_down 0 (calm (\<lambda>i. page ''101'' 3))) (start [ann] 0))))
       = [PushLink 0 ''token-a'' (''Ann'' @ title_suffix) (load_url ''101'')]
   \<and> last_available_count
       (store (snd (check_teacher_availability
                 (commit_down 0 (calm (\<lambda>i. page ''101'' 3))) (start [ann] 0))) ! 0) = 0
   \<and> last_available_count
       (store (snd (check_teacher_availability
                 (commit_down 0 (calm (\<lambda>i. page ''101'' 3))) (start [ann] 0))) ! 0) \<noteq> 3
   \<and> probe (push_down (calm (\<lambda>i. page ''101'' 3))) 0 (store (start [ann] 0) ! 0) = Some 3
   \<and> HttpGet 0 (load_url ''101'')
       \<in> set (trace (snd (check_teacher_availability
                 (push_down (calm (\<lambda>i. page ''101'' 3))) (start [ann] 0))))
   \<and> filter (\<lambda>e. is_push e \<and> item_of e = 0)
       (trace (snd (check_teacher_availability
                 (push_down (calm (\<lambda>i. page ''101'' 3))) (start [ann] 0)))) = []"
proof -
  let ?c = "commit_down 0 (calm (\<lambda>i. page ''101'' 3))"
  let ?p = "push_down (calm (\<lambda>i. page ''101'' 3))"
  let ?s = "start [ann] 0"
  have p: "probe ?c 0 (store ?s ! 0) = Some 3" "probe ?p 0 (store ?s ! 0) = Some 3"
    by (simp_all add: commit_down_def push_down_def calm_def slots_of_page)
  have l: "last_available_count (store ?s ! 0) < 3" by (simp add: start_def ann_def)
  have row: "store (snd (check_teacher_availability ?c ?s)) ! 0 = ann"
    using run_row [of ?c 0 ?s] p(1)
    by (simp add: commit_down_def calm_def start_def)
  have h1: "HttpGet 0 (load_url ''101'') \<in> set (trace (snd (check_teacher_availability ?c ?s)))"
    using run_probed [of 0 ?s ?c] by (simp add: commit_down_def calm_def start_def ann_def)
  have h2: "HttpGet 0 (load_url ''101'') \<in> set (trace (snd (check_teacher_availability ?p ?s)))"
    using run_probed [of 0 ?s ?p] by (simp add: push_down_def calm_def start_def ann_def)
  have n1: "filter (\<lambda>e. is_push e \<and> item_of e = 0)
              (trace (snd (check_teacher_availability ?c ?s)))
            = [PushLink 0 ''token-a'' (''Ann'' @ title_suffix) (load_url ''101'')]"
    using run_pushes_at [of 0 ?s ?c] p(1) l
    by (simp add: notified_def commit_down_def calm_def start_def ann_def str_of_def)
  have n2: "filter (\<lambda>e. is_push e \<and> item_of e = 0)
              (trace (snd (check_teacher_availability ?p ?s))) = []"
    using run_pushes_at [of 0 ?s ?p] p(2) l
    by (simp add: notified_def push_down_def calm_def start_def ann_def)
  show ?thesis using p l row h1 h2 n1 n2 by (simp add: ann_def)
qed

text \<open>
  Claim C3. In a run that reads the table and gets to the subscription at position \<open>k\<close>,
  if the probe succeeds with a count \<open>c'\<close> that is not above the stored one, then no
  push is delivered for that subscription; and when the commit of that subscription
  does not raise, its stored count is overwritten with \<open>c'\<close>.
\<close>

theorem no_increase_no_notification:
  assumes "query_all_exn w = None" and "k < length (store s)"
    and "reaches w 0 (store s) k"
    and "probe w k (store s ! k) = Some c'"
    and "c' \<le> last_available_count (store s ! k)"
  shows "filter (\<lambda>e. is_push e \<and> item_of e = k) (trace (snd (check_teacher_availability w s)))
           = filter (\<lambda>e. is_push e \<and> item_of e = k) (trace s)
       \<and> (commit_exn w k = None
          \<longrightarrow> store (snd (check_teacher_availability w s)) ! k
                = (store s ! k)\<lparr>last_available_count := c'\<rparr>)"
proof -
  have a: "filter (\<lambda>e. is_push e \<and> item_of e = k) (trace (snd (check_teacher_availability w s)))
           = filter (\<lambda>e. is_push e \<and> item_of e = k) (trace s)"
    using run_pushes_at [OF assms(2), of w] assms(4,5) by simp
  have b: "store (snd (check_teacher_availability w s)) ! k
             = (store s ! k)\<lparr>last_available_count := c'\<rparr>" if "commit_exn w k = None"
    using run_row [OF assms(1,2)] assms(3,4) that by simp
  show ?thesis using a b by simp
qed

theorem no_increase_no_notification_witness:
  "store (snd (check_teacher_availability (calm (\<lambda>i. page ''202'' 2)) (start [bob] 0))) ! 0
     = bob\<lparr>last_available_count := 2\<rparr>
   \<and> filter (\<lambda>e. is_push e \<and> item_of e = 0)
       (trace (snd (check_teacher_availability (calm (\<lambda>i. page ''202'' 2)) (start [bob] 0))))
     = []"
  using no_increase_no_notification [of "calm (\<lambda>i. page ''202'' 2)" 0 "start [bob] 0" 2]
  by (simp add: calm_def start_def bob_def slots_of_page)

text \<open>
  Without the condition on the commit the statement of C3 fails. The subscription
  \<open>bob\<close> has the stored count 5 and its probe returns 2. When its commit raises, the
  request is made and the stored count after the run is still 5.
\<close>

theorem no_increase_no_notification_counterexample:
  "probe (commit_down 0 (calm (\<lambda>i. page ''202'' 2))) 0 (store (start [bob] 0) ! 0) = Some 2
   \<and> 2 \<le> last_available_count (store (start [bob] 0) ! 0)
   \<and> HttpGet 0 (load_url ''202'')
       \<in> set (trace (snd (check_teacher_availability
                 (commit_down 0 (calm (\<lambda>i. page ''202'' 2))) (start [bob] 0))))
   \<and> last_available_count
       (store (snd (check_teacher_availability
                 (commit_down 0 (calm (\<lambda>i. page ''202'' 2))) (start [bob] 0))) ! 0) = 5
   \<and> last_available_count
       (store (snd (check_teacher_availability
                 (commit_down 0 (calm (\<lambda>i. page ''202'' 2))) (start [bob] 0))) ! 0) \<noteq> 2"
proof -
  let ?c = "commit_down 0 (calm (\<lambda>i. page ''202'' 2))"
  let ?s = "start [bob] 0"
  have p: "probe ?c 0 (store ?s ! 0) = Some 2"
    by (simp add: commit_down_def calm_def slots_of_page)
  have l: "2 \<le> last_available_count (store ?s ! 0)" by (simp add: start_def bob_def)
  have row: "store (snd (check_teacher_availability ?c ?s)) ! 0 = bob"
    using run_row [of ?c 0 ?s] p
    by (simp add: commit_down_def calm_def start_def)
  have h: "HttpGet 0 (load_url ''202'') \<in> set (trace (snd (check_teacher_availability ?c ?s)))"
    using run_probed [of 0 ?s ?c] by (simp add: commit_down_def calm_def start_def bob_def)
  show ?thesis using p l row h by (simp add: bob_def)
qed

lemma reaches_Suc:
  "k < length us \<Longrightarrow>
     reaches w i us (Suc k) = (reaches w i us k \<and> \<not> aborts w (i + k) (us ! k))"
proof (induction us arbitrary: i k)
  case Nil
  then show ?case by simp
next
  case (Cons u us)
  show ?case
  proof (cases k)
    case 0
    then show ?thesis by simp
  next
    case (Suc k')
    then have "k' < length us" using Cons.prems by simp
    from Cons.IH [OF this, of "Suc i"] show ?thesis using Suc by simp
  qed
qed

lemma reaches_mono: "reaches w i us (Suc k) \<Longrightarrow> reaches w i us k"
proof (induction us arbitrary: i k)
  case Nil
  show ?case by (cases k) simp_all
next
  case (Cons u us)
  show ?case
  proof (cases k)
    case 0
    then show ?thesis by simp
  next
    case (Suc k')
    then show ?thesis using Cons.prems Cons.IH [of "Suc i" k'] by (simp split: if_splits)
  qed
qed

lemma reaches_add: "reaches w i us (m + d) \<Longrightarrow> reaches w i us m"
  by (induction d) (auto dest: reaches_mono)

lemma reaches_le: "reaches w i us n \<Longrightarrow> m \<le> n \<Longrightarrow> reaches w i us m"
  using reaches_add [of w i us m "n - m"] by simp

lemma reaches_before:
  assumes "reaches w i us k" and "j < k" and "j < length us"
  shows "reaches w i us j \<and> \<not> aborts w (i + j) (us ! j)"
proof -
  have "reaches w i us (Suc j)" using assms(1,2) by (auto intro: reaches_le)
  then show ?thesis using reaches_Suc [OF assms(3), of w i] by simp
qed

lemma try_block_fst:
  "fst (try_block w s) =
     (case query_all_exn w of Some e \<Rightarrow> Inl e
      | None \<Rightarrow> (case fst (for_users w 0 (store s) 0 s) of Inl e \<Rightarrow> Inl e | Inr n \<Rightarrow> Inr ()))"
  by (simp add: try_block_def Let_def split: option.splits prod.splits sum.splits)


lemma run_sorted:
  "sorted (map item_of (drop (length (trace s)) (trace (snd (check_teacher_availability w s)))))"
  by (simp add: check_trace loop_events_sorted split: option.splits)




text \<open>
  Claim C5. In a run that gets to a subscription whose probed count is above the stored
  one, an exception raised by the Pushbullet constructor or by \<open>push_link\<close> does not
  leave \<open>send_push_notification\<close> and does not leave the run; no push is delivered
  for the subscription; and when the commit goes through the stored count becomes the
  probed one and the loop goes on to the next position.
\<close>

theorem notifier_failure_is_contained:
  assumes "query_all_exn w = None" and "k < length (store s)"
    and "reaches w 0 (store s) k"
    and "probe w k (store s ! k) = Some c'"
    and "c' > last_available_count (store s ! k)"
    and "Pushbullet_exn w k (pushbullet_token (store s ! k)) = Some e
         \<or> push_link_exn w k (pushbullet_token (store s ! k))
              (str_of (teacher_name (store s ! k)) @ title_suffix)
              (load_url (teacher_id (store s ! k))) = Some e"
  shows "fst (send_push_notification w k (pushbullet_token (store s ! k))
                (teacher_id (store s ! k)) (teacher_name (store s ! k)) t) = Inr ()
       \<and> fst (check_teacher_availability w s) = Inr ()
       \<and> filter (\<lambda>e. is_push e \<and> item_of e = k) (trace (snd (check_teacher_availability w s)))
           = filter (\<lambda>e. is_push e \<and> item_of e = k) (trace s)
       \<and> (commit_exn w k = None \<longrightarrow>
            store (snd (check_teacher_availability w s)) ! k
              = (store s ! k)\<lparr>last_available_count := c'\<rparr>
            \<and> reaches w 0 (store s) (Suc k))"
proof -
  have n: "notified w k (store s ! k) = []"
    using assms(6) by (auto simp: notified_def)
  have a: "filter (\<lambda>e. is_push e \<and> item_of e = k) (trace (snd (check_teacher_availability w s)))
           = filter (\<lambda>e. is_push e \<and> item_of e = k) (trace s)"
    using run_pushes_at [OF assms(2), of w] assms(4) n by simp
  have b: "store (snd (check_teacher_availability w s)) ! k
              = (store s ! k)\<lparr>last_available_count := c'\<rparr>
            \<and> reaches w 0 (store s) (Suc k)" if "commit_exn w k = None"
    using run_row [OF assms(1,2)] reaches_Suc [OF assms(2), of w 0] assms(3,4) that
    by (simp add: aborts_def)
  show ?thesis using a b by (simp add: send_push_result check_fst)
qed

theorem notifier_failure_is_contained_witness:
  "fst (check_teacher_availability (push_down (calm (\<lambda>i. page ''101'' 3))) (start [ann] 0)) = Inr ()
   \<and> store (snd (check_teacher_availability (push_down (calm (\<lambda>i. page ''101'' 3)))
        (start [ann] 0))) ! 0 = ann\<lparr>last_available_count := 3\<rparr>
   \<and> filter (\<lambda>e. is_push e \<and> item_of e = 0)
        (trace (snd (check_teacher_availability (push_down (calm (\<lambda>i. page ''101'' 3)))
           (start [ann] 0)))) = []"
  using notifier_failure_is_contained
          [of "push_down (calm (\<lambda>i. page ''101'' 3))" 0 "start [ann] 0" 3 "Exception ''push failed''"]
  by (simp add: push_down_def calm_def start_def ann_def slots_of_page)

text \<open>
  Claim C9. In a run that gets to the subscription at position \<open>k\<close>: when its probe
  succeeds and its commit goes through, the effects at \<open>k\<close> are the request, the push
  if there is one and then the commit; when its commit raises, the block ends in that
  exception and every earlier row already holds its probed count; and the effects of the
  run come in the order of the positions, so a commit precedes every later request.
\<close>

theorem commits_are_per_subscription:
  assumes "query_all_exn w = None" and "k < length (store s)"
    and "reaches w 0 (store s) k"
  shows "(\<forall>c. probe w k (store s ! k) = Some c \<and> commit_exn w k = None \<longrightarrow>
            filter (\<lambda>e. item_of e = k) (trace (snd (check_teacher_availability w s)))
              = filter (\<lambda>e. item_of e = k) (trace s) @
                  HttpGet k (load_url (teacher_id (store s ! k))) #
                  (if c > last_available_count (store s ! k)
                   then notified w k (store s ! k) else []) @ [Commit k])
       \<and> (aborts w k (store s ! k) \<longrightarrow>
            (\<exists>e. fst (try_block w s) = Inl e)
            \<and> (\<forall>j < k. store (snd (check_teacher_availability w s)) ! j =
                  (case probe w j (store s ! j) of
                     None \<Rightarrow> store s ! j
                   | Some c \<Rightarrow> (store s ! j)\<lparr>last_available_count := c\<rparr>)))
       \<and> sorted (map item_of
            (drop (length (trace s)) (trace (snd (check_teacher_availability w s)))))"
proof -
  have a: "filter (\<lambda>e. item_of e = k) (trace (snd (check_teacher_availability w s)))
              = filter (\<lambda>e. item_of e = k) (trace s) @
                  HttpGet k (load_url (teacher_id (store s ! k))) #
                  (if c > last_available_count (store s ! k)
                   then notified w k (store s ! k) else []) @ [Commit k]"
    if "probe w k (store s ! k) = Some c" and "commit_exn w k = None" for c
    unfolding run_events_at [OF assms(2), of w] using assms(1,3) that
    by (simp add: body_events_def)
  have b1: "\<exists>e. fst (try_block w s) = Inl e" if ab: "aborts w k (store s ! k)"
  proof -
    have "\<not> reaches w 0 (store s) (Suc k)"
      using reaches_Suc [OF assms(2), of w 0] ab by simp
    then have "\<not> reaches w 0 (store s) (length (store s))"
      using reaches_le [of w 0 "store s" "length (store s)" "Suc k"] assms(2) by auto
    then obtain e where "fst (for_users w 0 (store s) 0 s) = Inl e"
      using for_users_Inl by blast
    then show ?thesis using assms(1) by (simp add: try_block_fst)
  qed
  have b2: "store (snd (check_teacher_availability w s)) ! j =
                  (case probe w j (store s ! j) of
                     None \<Rightarrow> store s ! j
                   | Some c \<Rightarrow> (store s ! j)\<lparr>last_available_count := c\<rparr>)"
    if "j < k" for j
  proof -
    have jl: "j < length (store s)" using that assms(2) by simp
    have "reaches w 0 (store s) j \<and> \<not> aborts w (0 + j) (store s ! j)"
      by (rule reaches_before [OF assms(3) that jl])
    then show ?thesis using run_row [OF assms(1) jl]
      by (simp add: aborts_def split: option.splits)
  qed
  show ?thesis using a b1 b2 run_sorted [of s w] by blast
qed

theorem commits_are_per_subscription_witness:
  "store (snd (check_teacher_availability (commit_down 1 (calm (\<lambda>i. page ''101'' 3)))
      (start [ann, bob] 0))) ! 0 = ann\<lparr>last_available_count := 3\<rparr>
   \<and> (\<exists>e. fst (try_block (commit_down 1 (calm (\<lambda>i. page ''101'' 3))) (start [ann, bob] 0)) = Inl e)"
proof -
  let ?w = "commit_down 1 (calm (\<lambda>i. page ''101'' 3))"
  let ?s = "start [ann, bob] 0"
  have q: "query_all_exn ?w = None" by (simp add: commit_down_def calm_def)
  have k: "1 < length (store ?s)" by (simp add: start_def)
  have r: "reaches ?w 0 (store ?s) 1"
    by (simp add: start_def aborts_def commit_down_def calm_def slots_of_page)
  have ab: "aborts ?w 1 (store ?s ! 1)"
    by (simp add: start_def aborts_def commit_down_def calm_def slots_of_page)
  from commits_are_per_subscription [OF q k r] ab
  have "(\<exists>e. fst (try_block ?w ?s) = Inl e)
      \<and> (\<forall>j < 1. store (snd (check_teacher_availability ?w ?s)) ! j =
                  (case probe ?w j (store ?s ! j) of
                     None \<Rightarrow> store ?s ! j
                   | Some c \<Rightarrow> (store ?s ! j)\<lparr>last_available_count := c\<rparr>))"
    by blast
  then show ?thesis
    by (simp add: start_def commit_down_def calm_def slots_of_page)
qed

section \<open>The failure streak, the threshold and the run boundary\<close>

lemma check_pair: "check_teacher_availability w s = (Inr (), snd (check_teacher_availability w s))"
  using check_fst [of w s] by (cases "check_teacher_availability w s") simp

lemma scheduler_Cons: "scheduler (w # ws) s = scheduler ws (snd (check_teacher_availability w s))"
proof -
  obtain s1 where c: "check_teacher_availability w s = (Inr (), s1)"
    using check_pair [of w s] by blast
  show ?thesis by (simp add: c)
qed

lemma scheduler_fst: "fst (scheduler ws s) = Inr ()"
  by (induction ws arbitrary: s) (simp_all add: scheduler_Cons del: scheduler.simps(2))

lemma scheduler_snoc:
  "scheduler (ws @ [w]) s = check_teacher_availability w (snd (scheduler ws s))"
proof (induction ws arbitrary: s)
  case Nil
  show ?case by (metis scheduler_Cons scheduler.simps(1) check_pair append_Nil snd_conv)
next
  case (Cons v ws)
  show ?case using Cons.IH [of "snd (check_teacher_availability v s)"]
    by (simp add: scheduler_Cons del: scheduler.simps(2))
qed

lemma for_users_store_indep:
  "store s = store t \<Longrightarrow>
     store (snd (for_users w i us ec s)) = store (snd (for_users w i us ec' t))"
proof (induction us arbitrary: i ec ec' s t)
  case Nil
  then show ?case by simp
next
  case (Cons u us)
  obtain r s1 where b: "loop_body w i u ec s = (r, s1)" by (cases "loop_body w i u ec s")
  obtain r' t1 where b': "loop_body w i u ec' t = (r', t1)" by (cases "loop_body w i u ec' t")
  have st: "store s1 = store t1"
    using loop_body_store [of w i u ec s] loop_body_store [of w i u ec' t] b b' Cons.prems
    by (simp split: option.splits)
  show ?case
  proof (cases "aborts w i u")
    case True
    then obtain e e' where "r = Inl e" "r' = Inl e'"
      using loop_body_Inr [of w i u ec s] loop_body_Inr [of w i u ec' t] b b'
      by (cases r; cases r') auto
    then show ?thesis using b b' st by simp
  next
    case False
    then obtain n n' where "r = Inr n" "r' = Inr n'"
      using loop_body_Inl [of w i u ec s] loop_body_Inl [of w i u ec' t] b b'
      by (cases r; cases r') auto
    then show ?thesis using b b' Cons.IH [OF st] by simp
  qed
qed

lemma check_store_indep:
  "store s = store t \<Longrightarrow>
     store (snd (check_teacher_availability w s)) = store (snd (check_teacher_availability w t))"
  using for_users_store_indep [of s t w 0 "store s" 0 0]
  by (simp add: check_store split: option.splits)

lemma check_trace_indep:
  "store s = store t \<Longrightarrow> trace s = trace t \<Longrightarrow>
     trace (snd (check_teacher_availability w s)) = trace (snd (check_teacher_availability w t))"
  by (simp add: check_trace split: option.splits)

lemma scheduler_indep:
  "store s = store t \<Longrightarrow> trace s = trace t \<Longrightarrow>
     store (snd (scheduler ws s)) = store (snd (scheduler ws t))
     \<and> trace (snd (scheduler ws s)) = trace (snd (scheduler ws t))"
proof (induction ws arbitrary: s t)
  case Nil
  then show ?case by simp
next
  case (Cons w ws)
  show ?case unfolding scheduler_Cons
    by (rule Cons.IH) (simp_all add: check_store_indep [OF Cons.prems(1)]
          check_trace_indep [OF Cons.prems])
qed

lemma check_ce_on_error:
  "fst (try_block w s) = Inl e \<Longrightarrow>
     consecutive_errors (snd (check_teacher_availability w s)) = consecutive_errors s"
  by (simp add: check_ce try_block_fst split: option.splits sum.splits)

lemma check_stdout_on_error:
  "fst (try_block w s) = Inl e \<Longrightarrow>
     stdout (snd (check_teacher_availability w s)) = stdout (snd (try_block w s)) @ [RunError e]"
  by (cases "try_block w s") (simp add: check_teacher_availability_def print_def)

text \<open>
  The counter after a run that reads the table and whose loop gets through: one more
  when every probe failed, zero otherwise.
\<close>

lemma streak_after_full_run:
  assumes "query_all_exn w = None" and "reaches w 0 (store s) (length (store s))"
  shows "consecutive_errors (snd (check_teacher_availability w s)) =
           (if \<forall>k < length (store s). probe w k (store s ! k) = None
            then consecutive_errors s + 1 else 0)"
proof -
  have "fst (for_users w 0 (store s) 0 s) = Inr (int (failures w 0 (store s)))"
    using for_users_Inr [OF assms(2), of 0 s] by simp
  then show ?thesis using assms(1) failures_all [of w 0 "store s"]
    by (simp add: check_ce)
qed

lemma streak_all_failed:
  assumes "query_all_exn w = None"
    and "\<And>k. k < length (store s) \<Longrightarrow> probe w k (store s ! k) = None"
  shows "consecutive_errors (snd (check_teacher_availability w s)) = consecutive_errors s + 1"
proof -
  have "reaches w 0 (store s) (length (store s))"
    by (rule reaches_all_fail) (simp add: assms(2))
  then show ?thesis using streak_after_full_run [OF assms(1)] assms(2) by simp
qed

text \<open>
  Claim C2. The comparison \<open>error_count_this_run == len(users)\<close> also holds for an
  empty table: a run over no subscription raises the counter by one and prints the
  line about a failure for all users, and from the streak 4 it prints the line about
  skipping as well, where the claim has the counter reset to 0.
\<close>

theorem empty_run_counts_as_failure:
  "consecutive_errors (snd (check_teacher_availability (calm pages) (start [] n))) = n + 1
   \<and> stdout (snd (check_teacher_availability (calm pages) (start [] 4)))
       = [AllFailed 5, Skipping]"
  by (simp add: check_teacher_availability_def try_block_def calm_def start_def print_def
        MAX_ERRORS_def Let_def)

text \<open>
  Claim C6. The value of the streak counter, at or above the threshold or not, has no
  influence on what a run or a sequence of runs does to the table and on its requests,
  pushes and commits; every run returns normally; and in a run that reads the table,
  every subscription the loop gets to is probed.
\<close>

theorem threshold_does_not_stop_runs:
  "fst (check_teacher_availability w s) = Inr ()
   \<and> store (snd (check_teacher_availability w (s\<lparr>consecutive_errors := n\<rparr>)))
       = store (snd (check_teacher_availability w s))
   \<and> trace (snd (check_teacher_availability w (s\<lparr>consecutive_errors := n\<rparr>)))
       = trace (snd (check_teacher_availability w s))
   \<and> fst (scheduler ws s) = Inr ()
   \<and> store (snd (scheduler ws (s\<lparr>consecutive_errors := n\<rparr>))) = store (snd (scheduler ws s))
   \<and> trace (snd (scheduler ws (s\<lparr>consecutive_errors := n\<rparr>))) = trace (snd (scheduler ws s))
   \<and> (\<forall>k < length (store s). query_all_exn w = None \<and> reaches w 0 (store s) k \<longrightarrow>
         HttpGet k (load_url (teacher_id (store s ! k)))
           \<in> set (trace (snd (check_teacher_availability w (s\<lparr>consecutive_errors := n\<rparr>)))))"
proof -
  have a: "store (s\<lparr>consecutive_errors := n\<rparr>) = store s"
    and b: "trace (s\<lparr>consecutive_errors := n\<rparr>) = trace s" by simp_all
  have c: "HttpGet k (load_url (teacher_id (store s ! k)))
           \<in> set (trace (snd (check_teacher_availability w (s\<lparr>consecutive_errors := n\<rparr>))))"
    if "k < length (store s)" and "query_all_exn w = None" and "reaches w 0 (store s) k" for k
    using run_probed [of k "s\<lparr>consecutive_errors := n\<rparr>" w] that by simp
  show ?thesis
    using check_store_indep [OF a, of w] check_trace_indep [OF a b, of w]
      scheduler_indep [OF a b, of ws] c
    by (simp add: check_fst scheduler_fst)
qed

theorem threshold_does_not_stop_runs_witness:
  "store (snd (check_teacher_availability (calm (\<lambda>i. page ''101'' 3))
      ((start [ann] 0)\<lparr>consecutive_errors := 5\<rparr>))) ! 0 = ann\<lparr>last_available_count := 3\<rparr>
   \<and> HttpGet 0 (load_url ''101'')
       \<in> set (trace (snd (check_teacher_availability (calm (\<lambda>i. page ''101'' 3))
            ((start [ann] 0)\<lparr>consecutive_errors := 5\<rparr>))))"
proof -
  let ?w = "calm (\<lambda>i. page ''101'' 3)"
  let ?s = "start [ann] 0"
  note t = threshold_does_not_stop_runs [of ?w ?s 5 "[]"]
  have "store (snd (check_teacher_availability ?w (?s\<lparr>consecutive_errors := 5\<rparr>)))
          = store (snd (check_teacher_availability ?w ?s))"
    using t by blast
  moreover have "store (snd (check_teacher_availability ?w ?s)) ! 0
          = ann\<lparr>last_available_count := 3\<rparr>"
    using run_row [of ?w 0 ?s] by (simp add: calm_def start_def slots_of_page)
  moreover have "\<forall>k < length (store ?s). query_all_exn ?w = None \<and> reaches ?w 0 (store ?s) k \<longrightarrow>
         HttpGet k (load_url (teacher_id (store ?s ! k)))
           \<in> set (trace (snd (check_teacher_availability ?w (?s\<lparr>consecutive_errors := 5\<rparr>))))"
    using t by blast
  then have "HttpGet 0 (load_url (teacher_id (store ?s ! 0)))
           \<in> set (trace (snd (check_teacher_availability ?w (?s\<lparr>consecutive_errors := 5\<rparr>))))"
    by (simp add: calm_def start_def)
  ultimately show ?thesis by (simp add: start_def ann_def)
qed

text \<open>
  Claim C7. For every behaviour of the prober, the notifier and the store, the run
  returns normally; so does every sequence of scheduled runs, and each run of the
  sequence is executed from the state its predecessors left. An exception that ends the
  \<open>try\<close> block is printed, and the streak counter keeps its value.
\<close>

theorem run_never_raises:
  "fst (check_teacher_availability w s) = Inr ()
   \<and> fst (scheduler ws s) = Inr ()
   \<and> scheduler (ws @ [w]) s = check_teacher_availability w (snd (scheduler ws s))
   \<and> (\<forall>e. fst (try_block w s) = Inl e \<longrightarrow>
         stdout (snd (check_teacher_availability w s))
           = stdout (snd (try_block w s)) @ [RunError e]
         \<and> consecutive_errors (snd (check_teacher_availability w s)) = consecutive_errors s)"
proof -
  have "stdout (snd (check_teacher_availability w s))
           = stdout (snd (try_block w s)) @ [RunError e]
         \<and> consecutive_errors (snd (check_teacher_availability w s)) = consecutive_errors s"
    if "fst (try_block w s) = Inl e" for e
    using that check_stdout_on_error [of w s e] check_ce_on_error [of w s e] by simp
  moreover have "fst (check_teacher_availability w s) = Inr ()" by (rule check_fst)
  moreover have "fst (scheduler ws s) = Inr ()" by (rule scheduler_fst)
  moreover have "scheduler (ws @ [w]) s = check_teacher_availability w (snd (scheduler ws s))"
    by (rule scheduler_snoc)
  ultimately show ?thesis by blast
qed

theorem run_never_raises_witness:
  "fst (check_teacher_availability (query_down (calm (\<lambda>i. page ''101'' 3))) (start [ann] 2))
     = Inr ()
   \<and> stdout (snd (check_teacher_availability (query_down (calm (\<lambda>i. page ''101'' 3)))
        (start [ann] 2))) = [RunError (Exception ''no such table'')]
   \<and> consecutive_errors (snd (check_teacher_availability
        (query_down (calm (\<lambda>i. page ''101'' 3))) (start [ann] 2))) = 2"
proof -
  let ?w = "query_down (calm (\<lambda>i. page ''101'' 3))"
  let ?s = "start [ann] 2"
  have e: "fst (try_block ?w ?s) = Inl (Exception ''no such table'')"
    by (simp add: try_block_def query_down_def)
  have o: "stdout (snd (try_block ?w ?s)) = []"
    by (simp add: try_block_def query_down_def start_def)
  show ?thesis
    using run_never_raises [of ?w ?s "[]"] e o by (simp add: start_def)
qed

section \<open>The cap on the subscriptions of an owner\<close>


















end
